theory Spec2Isabelle
  imports Main
begin

section \<open>Values, subscribers and the calls a binding makes\<close>

text \<open>
  The watcher of \<^verbatim>\<open>lib/createWatcher.ts\<close> keeps, for one decorated property, three
  variables captured by its closures: \<^verbatim>\<open>subscribers\<close>, \<^verbatim>\<open>currentValue\<close> and
  \<^verbatim>\<open>thunk\<close>. Every host instance carries one hidden slot (\<^verbatim>\<open>ctx[subscriptionKey]\<close>).

  A JavaScript value is either \<^verbatim>\<open>undefined\<close> or something else. Equality of \<open>'a js\<close>
  stands for the program's strict comparison (\<^verbatim>\<open>!==\<close>), so for objects an instance of
  \<open>'a\<close> carries the identity of the object. The one value that the program finds
  different from itself, the number NaN, is outside the model.
\<close>

datatype 'a js = Undefined | Val 'a

type_synonym inst = nat

text \<open>
  A subscriber is the closure
  \<^verbatim>\<open>(previousValue) => { ctx.requestUpdate(key, previousValue); }\<close>
  that one run of the wrapped connect hook creates: \<open>sid\<close> is the identity of the closure
  (a new one for every run), \<open>ctx\<close> the instance it captured.
\<close>

datatype subscriber = Subscriber (sid: nat) (ctx: inst)

text \<open>
  The calls that leave the binding's own code, in program order: the selection function
  applied to a snapshot, \<^verbatim>\<open>ctx.requestUpdate(key, previousValue)\<close>, the hooks the
  prototype had before it was patched, and the two operations of the registry.
\<close>

datatype 'a call =
    Select "'a js"
  | RequestUpdate inst string "'a js"
  | SuperConnect inst
  | SuperDisconnect inst
  | Subscribe subscriber
  | Unsubscribe subscriber

record 'a binding =
  subscribers :: "subscriber list"
  currentValue :: "'a js"
  thunk :: "'a js option"
  slot :: "inst \<Rightarrow> subscriber option"
  closures :: nat
  calls :: "'a call list"

text \<open>
  What the closures of one decoration capture and never change: the optional selector,
  the key handed to \<^verbatim>\<open>patchPrototypeWithWatcher\<close>, and whether the prototype had a
  \<^verbatim>\<open>connectedCallback\<close> and a \<^verbatim>\<open>disconnectedCallback\<close> before the patch
  (\<^verbatim>\<open>connect?.call(this)\<close>, \<^verbatim>\<open>disconnect?.call(this)\<close>).
\<close>

record 'a watch =
  selector :: "('a js \<Rightarrow> 'a js) option"
  propertyKey :: string
  connect :: bool
  disconnect :: bool

definition init :: "'a binding" where
  "init = \<lparr>subscribers = [], currentValue = Undefined, thunk = None,
           slot = (\<lambda>_. None), closures = 0, calls = []\<rparr>"

section \<open>The registry\<close>

definition subscribe :: "subscriber \<Rightarrow> 'a binding \<Rightarrow> 'a binding" where
  "subscribe subscriber b =
     b\<lparr>subscribers := subscribers b @ [subscriber],
       calls := calls b @ [Subscribe subscriber]\<rparr>"

text \<open>The handle \<^verbatim>\<open>subscribe\<close> returns, invoked.\<close>

definition unsubscribe :: "subscriber \<Rightarrow> 'a binding \<Rightarrow> 'a binding" where
  "unsubscribe subscriber b =
     b\<lparr>subscribers := filter (\<lambda>item. item \<noteq> subscriber) (subscribers b),
       calls := calls b @ [Unsubscribe subscriber]\<rparr>"

section \<open>Pushes and reads\<close>

definition maybeSelector :: "('a js \<Rightarrow> 'a js) option \<Rightarrow> 'a js \<Rightarrow> 'a js" where
  "maybeSelector sel = (case sel of None \<Rightarrow> (\<lambda>v. v) | Some f \<Rightarrow> f)"

definition notifier :: "'a watch \<Rightarrow> subscriber \<Rightarrow> 'a js \<Rightarrow> 'a call" where
  "notifier w s previousValue = RequestUpdate (ctx s) (propertyKey w) previousValue"

text \<open>The function handed to \<^verbatim>\<open>from(observable).subscribe\<close>.\<close>

definition observer :: "'a watch \<Rightarrow> 'a binding \<Rightarrow> 'a js \<Rightarrow> 'a binding" where
  "observer w b v =
     (if length (subscribers b) = 0 then b\<lparr>thunk := Some v\<rparr>
      else
        let nextValue = maybeSelector (selector w) v;
            b1 = b\<lparr>calls := calls b @ [Select v]\<rparr>
        in if currentValue b1 \<noteq> nextValue then
             let previousValue = currentValue b1;
                 b2 = b1\<lparr>currentValue := nextValue\<rparr>
             in b2\<lparr>calls := calls b2 @ map (\<lambda>s. notifier w s previousValue) (subscribers b2)\<rparr>
           else b1)"

text \<open>\<^verbatim>\<open>thunk?.()\<close>: the pending thunk, if there is one, is run and cleared.\<close>

definition runThunk :: "'a watch \<Rightarrow> 'a binding \<Rightarrow> 'a binding" where
  "runThunk w b =
     (case thunk b of
        None \<Rightarrow> b
      | Some v \<Rightarrow> b\<lparr>currentValue := maybeSelector (selector w) v, thunk := None,
                   calls := calls b @ [Select v]\<rparr>)"

text \<open>The accessor installed by \<^verbatim>\<open>configureSetter\<close>: the value read and the state left.\<close>

definition getter :: "'a watch \<Rightarrow> 'a binding \<Rightarrow> 'a js \<times> 'a binding" where
  "getter w b = (let b1 = runThunk w b in (currentValue b1, b1))"

section \<open>The wrapped lifecycle hooks\<close>

text \<open>
  The repair of the property descriptor in the connect hook installs the same accessor
  on the instance and changes nothing of the binding, so a read is \<open>getter\<close> wherever
  the accessor stands. The instance is taken to accept that accessor: it is extensible
  and has no own property under the key that is not configurable. The host's own hooks and \<^verbatim>\<open>requestUpdate\<close> are recorded as calls;
  they are taken not to call back into the binding while it runs.
\<close>

definition connectedCallback :: "'a watch \<Rightarrow> 'a binding \<Rightarrow> inst \<Rightarrow> 'a binding" where
  "connectedCallback w b this =
     (let b1 = (if connect w then b\<lparr>calls := calls b @ [SuperConnect this]\<rparr> else b);
          b2 = (case slot b1 this of None \<Rightarrow> b1 | Some h \<Rightarrow> unsubscribe h b1);
          s = Subscriber (closures b2) this;
          b3 = subscribe s (b2\<lparr>closures := Suc (closures b2)\<rparr>)
      in b3\<lparr>slot := (slot b3)(this := Some s)\<rparr>)"

definition disconnectedCallback :: "'a watch \<Rightarrow> 'a binding \<Rightarrow> inst \<Rightarrow> 'a binding" where
  "disconnectedCallback w b this =
     (let b1 = (case slot b this of None \<Rightarrow> b | Some h \<Rightarrow> unsubscribe h b)
      in if disconnect w then b1\<lparr>calls := calls b1 @ [SuperDisconnect this]\<rparr> else b1)"

section \<open>Histories\<close>

datatype 'a event = Push "'a js" | Connect inst | Disconnect inst | Read inst

fun step :: "'a watch \<Rightarrow> 'a binding \<Rightarrow> 'a event \<Rightarrow> 'a binding" where
  "step w b (Push v) = observer w b v"
| "step w b (Connect i) = connectedCallback w b i"
| "step w b (Disconnect i) = disconnectedCallback w b i"
| "step w b (Read i) = snd (getter w b)"

definition run :: "'a watch \<Rightarrow> 'a binding \<Rightarrow> 'a event list \<Rightarrow> 'a binding" where
  "run w b evs = foldl (step w) b evs"

text \<open>The calls made between two states of one history, and those that ask an instance to update.\<close>

definition emitted :: "'a binding \<Rightarrow> 'a binding \<Rightarrow> 'a call list" where
  "emitted b b' = drop (length (calls b)) (calls b')"

fun requested :: "inst \<Rightarrow> 'a call \<Rightarrow> bool" where
  "requested i (RequestUpdate j k p) = (j = i)"
| "requested i _ = False"

fun selected :: "'a call \<Rightarrow> bool" where
  "selected (Select v) = True"
| "selected _ = False"

fun is_push :: "'a event \<Rightarrow> bool" where
  "is_push (Push v) = True"
| "is_push _ = False"

fun connects :: "inst \<Rightarrow> 'a event \<Rightarrow> bool" where
  "connects i (Connect j) = (j = i)"
| "connects i _ = False"

fun touches :: "inst \<Rightarrow> 'a event \<Rightarrow> bool" where
  "touches i (Connect j) = (j = i)"
| "touches i (Disconnect j) = (j = i)"
| "touches i _ = False"

fun is_hook :: "'a event \<Rightarrow> bool" where
  "is_hook (Connect i) = True"
| "is_hook (Disconnect i) = True"
| "is_hook _ = False"

section \<open>Decoration\<close>

text \<open>
  The source is handed to \<^verbatim>\<open>from\<close> of rxjs and subscribed once, when the decorator runs.
  A stream delivers at that moment what it replays (nothing, for a plain subject); a
  store-like source delivers its current snapshot.
\<close>

datatype 'a source = Stream "'a js list" | Store "'a js"

text \<open>
  Modelled from the spec: \<^verbatim>\<open>from(observable)\<close> is rxjs, and the observable of a store is
  the store library's; neither is part of this repository. The spec, 4.1 step 1: if the
  source is store-like, synthesize an initial snapshot from its current-snapshot accessor
  and then forward subsequent pushes; if stream-like, forward pushes directly, with no
  synthetic initial push unless the stream itself replays one. The function gives the
  snapshots delivered during the subscription itself; later pushes are \<open>Push\<close> events.
\<close>

definition from_observable :: "'a source \<Rightarrow> 'a js list" where
  "from_observable observable =
     (case observable of Stream replayed \<Rightarrow> replayed | Store state \<Rightarrow> [state])"

datatype kind = Field | Method

text \<open>
  A class element of the decorators proposal, as far as the decorator reads it. The
  descriptor is given by the names of its entries (\<^verbatim>\<open>'value' in classElement.descriptor\<close>),
  \<open>None\<close> when the element has no descriptor.
\<close>

record class_element =
  kind :: kind
  key :: string
  descriptor :: "string list option"

text \<open>
  The decorator is called in one of two shapes: by an implementation of the decorators
  proposal, with a class element and no property key, or by the legacy implementation,
  with the prototype and the property key.
\<close>

datatype decoration = Proposal class_element | Legacy string

text \<open>
  The two errors a decoration can raise: the decorator's own \<^verbatim>\<open>Error\<close> with its message,
  and the \<^verbatim>\<open>TypeError\<close> of \<^verbatim>\<open>Object.defineProperty\<close>.
\<close>

datatype error = Error string | TypeError

datatype returned = ElementDescriptor | Void

text \<open>
  The prototype, as far as the patch reads and changes it: whether it has the two hooks,
  whether it is extensible, and for every key whether it has an own property under that
  key and whether that property is configurable.
\<close>

datatype own_property = Absent | Configurable | NonConfigurable

record prototype =
  hasConnectedCallback :: bool
  hasDisconnectedCallback :: bool
  extensible :: bool
  ownProperty :: "string \<Rightarrow> own_property"

text \<open>
  \<^verbatim>\<open>Object.defineProperty(target, key, {configurable: false, enumerable: true, get})\<close>
  with a getter made anew by every call. An own property that is not configurable cannot
  be redefined with another getter or turned from a data property into an accessor, and
  a target that is not extensible takes no new property: the call throws. Otherwise the
  key becomes an accessor that is not configurable.
\<close>

definition configureSetter :: "prototype \<Rightarrow> string \<Rightarrow> error + prototype" where
  "configureSetter target k =
     (if ownProperty target k = NonConfigurable \<or>
         (ownProperty target k = Absent \<and> \<not> extensible target)
      then Inl TypeError
      else Inr (target\<lparr>ownProperty := (ownProperty target)(k := NonConfigurable)\<rparr>))"

text \<open>What the closures installed by the patch capture.\<close>

definition captured ::
    "('a js \<Rightarrow> 'a js) option \<Rightarrow> prototype \<Rightarrow> string \<Rightarrow> 'a watch" where
  "captured sel proto k =
     \<lparr>selector = sel, propertyKey = k,
      connect = hasConnectedCallback proto, disconnect = hasDisconnectedCallback proto\<rparr>"

text \<open>
  The patch configures the accessor at once, which may throw, and then replaces the two
  hooks by their wrappers.
\<close>

definition patchPrototypeWithWatcher ::
    "('a js \<Rightarrow> 'a js) option \<Rightarrow> prototype \<Rightarrow> string
       \<Rightarrow> error + ('a watch \<times> prototype)" where
  "patchPrototypeWithWatcher sel proto k =
     (case configureSetter proto k of
        Inl e \<Rightarrow> Inl e
      | Inr patched \<Rightarrow>
          Inr (captured sel proto k,
               patched\<lparr>hasConnectedCallback := True, hasDisconnectedCallback := True\<rparr>))"

definition accessor_message :: "string \<Rightarrow> string" where
  "accessor_message k =
     ''Unable to decorate an accessor ('' @ [CHR 0x22] @ k @ [CHR 0x22] @ '')''"

text \<open>
  The decorator: the binding is created and the source subscribed before the shape of
  the call is looked at. In the proposal shape the decorator returns a descriptor and
  the prototype is patched by its finisher, when the class is created; in the legacy
  shape the prototype is patched at once, and an error of the patch is the decorator's.
  The result is the value returned, the constants of the closures that the patch
  installs and the binding as the subscription left it.
\<close>

definition watchDecorator ::
    "'a source \<Rightarrow> ('a js \<Rightarrow> 'a js) option \<Rightarrow> prototype \<Rightarrow> decoration
       \<Rightarrow> error + (returned \<times> 'a watch \<times> 'a binding)" where
  "watchDecorator observable sel proto args =
     (case args of
        Proposal classElement \<Rightarrow>
          if kind classElement = Method \<and>
             (case descriptor classElement of
                None \<Rightarrow> False
              | Some d \<Rightarrow> ''value'' \<notin> set d)
          then Inl (Error (accessor_message (key classElement)))
          else
            let w = captured sel proto (key classElement)
            in Inr (ElementDescriptor, w, foldl (observer w) init (from_observable observable))
      | Legacy k \<Rightarrow>
          (case patchPrototypeWithWatcher sel proto k of
             Inl e \<Rightarrow> Inl e
           | Inr (w, patched) \<Rightarrow>
               Inr (Void, w, foldl (observer w) init (from_observable observable))))"

text \<open>The finisher of the descriptor returned in the proposal shape, run on the class.\<close>

definition finisher ::
    "('a js \<Rightarrow> 'a js) option \<Rightarrow> prototype \<Rightarrow> class_element
       \<Rightarrow> error + ('a watch \<times> prototype)" where
  "finisher sel clazz classElement = patchPrototypeWithWatcher sel clazz (key classElement)"

section \<open>The variant of \<^verbatim>\<open>src/index.ts\<close>\<close>

text \<open>
  \<^verbatim>\<open>src/index.ts\<close> has the same registry and the same observer. Its accessor returns
  \<^verbatim>\<open>currentValue\<close> as it is, and its connect hook runs the thunk before it subscribes.
\<close>

definition index_getter :: "'a binding \<Rightarrow> 'a js \<times> 'a binding" where
  "index_getter b = (currentValue b, b)"

definition index_connectedCallback :: "'a watch \<Rightarrow> 'a binding \<Rightarrow> inst \<Rightarrow> 'a binding" where
  "index_connectedCallback w b this =
     (let b1 = (if connect w then b\<lparr>calls := calls b @ [SuperConnect this]\<rparr> else b);
          b2 = runThunk w b1;
          b3 = (case slot b2 this of None \<Rightarrow> b2 | Some h \<Rightarrow> unsubscribe h b2);
          s = Subscriber (closures b3) this;
          b4 = subscribe s (b3\<lparr>closures := Suc (closures b3)\<rparr>)
      in b4\<lparr>slot := (slot b4)(this := Some s)\<rparr>)"

fun index_step :: "'a watch \<Rightarrow> 'a binding \<Rightarrow> 'a event \<Rightarrow> 'a binding" where
  "index_step w b (Push v) = observer w b v"
| "index_step w b (Connect i) = index_connectedCallback w b i"
| "index_step w b (Disconnect i) = disconnectedCallback w b i"
| "index_step w b (Read i) = snd (index_getter b)"

definition index_run :: "'a watch \<Rightarrow> 'a binding \<Rightarrow> 'a event list \<Rightarrow> 'a binding" where
  "index_run w b evs = foldl (index_step w) b evs"

section \<open>The invariant of the registry\<close>

text \<open>
  Every registered subscriber is a closure already created, the slot of its instance
  holds the handle that removes it, and a slot only ever holds a handle made for its own
  instance.
\<close>

definition wf :: "'a binding \<Rightarrow> bool" where
  "wf b \<longleftrightarrow>
     distinct (subscribers b) \<and>
     (\<forall>s \<in> set (subscribers b). sid s < closures b \<and> slot b (ctx s) = Some s) \<and>
     (\<forall>j h. slot b j = Some h \<longrightarrow> ctx h = j)"

section \<open>The host class of the tests\<close>

text \<open>
  \<^verbatim>\<open>class Mount\<close> of \<^verbatim>\<open>createWatcher.test.ts\<close> defines both hooks; its property
  \<^verbatim>\<open>complete\<close> is decorated with no selector. The prototype of a class is extensible
  and its methods are configurable.
\<close>

definition mount :: prototype where
  "mount =
     \<lparr>hasConnectedCallback = True, hasDisconnectedCallback = True, extensible = True,
      ownProperty =
        (\<lambda>k. if k \<in> set [''constructor'', ''connectedCallback'', ''disconnectedCallback'',
                             ''requestUpdate'']
             then Configurable else Absent)\<rparr>"

definition complete :: "'a watch" where
  "complete = captured None mount ''complete''"

section \<open>What each operation changes\<close>

lemmas evaluate =
  run_def index_run_def observer_def getter_def runThunk_def index_getter_def connectedCallback_def
  index_connectedCallback_def disconnectedCallback_def subscribe_def unsubscribe_def
  notifier_def maybeSelector_def init_def emitted_def complete_def mount_def
  captured_def configureSetter_def patchPrototypeWithWatcher_def finisher_def
  watchDecorator_def from_observable_def Let_def

lemma observer_registry:
  "subscribers (observer w b v) = subscribers b"
  "slot (observer w b v) = slot b"
  "closures (observer w b v) = closures b"
  by (simp_all add: observer_def Let_def)

lemma observer_subscribed:
  "subscribers b \<noteq> [] \<Longrightarrow>
     observer w b v =
       (if maybeSelector (selector w) v = currentValue b
        then b\<lparr>calls := calls b @ [Select v]\<rparr>
        else b\<lparr>currentValue := maybeSelector (selector w) v,
               calls := calls b @ Select v #
                 map (\<lambda>s. RequestUpdate (ctx s) (propertyKey w) (currentValue b)) (subscribers b)\<rparr>)"
  by (auto simp: observer_def notifier_def Let_def)

lemma observer_idle: "subscribers b = [] \<Longrightarrow> observer w b v = b\<lparr>thunk := Some v\<rparr>"
  by (simp add: observer_def)

lemma getter_registry:
  "subscribers (snd (getter w b)) = subscribers b"
  "slot (snd (getter w b)) = slot b"
  "closures (snd (getter w b)) = closures b"
  by (simp_all add: getter_def runThunk_def Let_def split: option.splits)

lemma getter_forced: "thunk (snd (getter w b)) = None"
  by (simp add: getter_def runThunk_def split: option.splits)

lemma getter_settled: "thunk b = None \<Longrightarrow> getter w b = (currentValue b, b)"
  by (simp add: getter_def runThunk_def)

lemma getter_value: "fst (getter w b) = currentValue (snd (getter w b))"
  by (simp add: getter_def runThunk_def Let_def)

lemma getter_calls:
  "calls (snd (getter w b)) = calls b @ (case thunk b of None \<Rightarrow> [] | Some v \<Rightarrow> [Select v])"
  by (simp add: getter_def runThunk_def split: option.splits)

lemma connectedCallback_registry:
  "subscribers (connectedCallback w b i)
     = filter (\<lambda>item. Some item \<noteq> slot b i) (subscribers b) @ [Subscriber (closures b) i]"
  "slot (connectedCallback w b i) = (slot b)(i := Some (Subscriber (closures b) i))"
  "closures (connectedCallback w b i) = Suc (closures b)"
  by (simp_all add: connectedCallback_def subscribe_def unsubscribe_def Let_def
        split: option.splits)

lemma connectedCallback_values:
  "currentValue (connectedCallback w b i) = currentValue b"
  "thunk (connectedCallback w b i) = thunk b"
  by (simp_all add: connectedCallback_def subscribe_def unsubscribe_def Let_def
        split: option.splits)

lemma connectedCallback_calls:
  "calls (connectedCallback w b i)
     = calls b @ (if connect w then [SuperConnect i] else [])
         @ (case slot b i of None \<Rightarrow> [] | Some h \<Rightarrow> [Unsubscribe h])
         @ [Subscribe (Subscriber (closures b) i)]"
  by (simp add: connectedCallback_def subscribe_def unsubscribe_def Let_def
        split: option.splits)

lemma disconnectedCallback_registry:
  "subscribers (disconnectedCallback w b i)
     = filter (\<lambda>item. Some item \<noteq> slot b i) (subscribers b)"
  "slot (disconnectedCallback w b i) = slot b"
  "closures (disconnectedCallback w b i) = closures b"
  by (simp_all add: disconnectedCallback_def unsubscribe_def Let_def split: option.splits)

lemma disconnectedCallback_values:
  "currentValue (disconnectedCallback w b i) = currentValue b"
  "thunk (disconnectedCallback w b i) = thunk b"
  by (simp_all add: disconnectedCallback_def unsubscribe_def Let_def split: option.splits)

lemma disconnectedCallback_calls:
  "calls (disconnectedCallback w b i)
     = calls b @ (case slot b i of None \<Rightarrow> [] | Some h \<Rightarrow> [Unsubscribe h])
         @ (if disconnect w then [SuperDisconnect i] else [])"
  by (simp add: disconnectedCallback_def unsubscribe_def Let_def split: option.splits)

lemma requested_notified:
  "filter (requested i) (map (\<lambda>s. RequestUpdate (ctx s) k p) xs)
     = map (\<lambda>s. RequestUpdate (ctx s) k p) (filter (\<lambda>s. ctx s = i) xs)"
  by (induction xs) simp_all

lemma observer_requests:
  "length (filter (requested i) (emitted b (observer w b v)))
     \<le> length (filter (\<lambda>s. ctx s = i) (subscribers b))"
proof (cases "subscribers b = []")
  case True
  then show ?thesis by (simp add: observer_idle emitted_def)
next
  case False
  then show ?thesis
    by (simp add: observer_subscribed emitted_def requested_notified)
qed

section \<open>The invariant holds along every history\<close>

lemma wf_init: "wf init"
  by (simp add: wf_def init_def)

lemma wf_observer: "wf b \<Longrightarrow> wf (observer w b v)"
  by (simp add: wf_def observer_registry)

lemma wf_getter: "wf b \<Longrightarrow> wf (snd (getter w b))"
  by (simp add: wf_def getter_registry)

lemma wf_connectedCallback:
  assumes "wf b"
  shows "wf (connectedCallback w b i)"
proof -
  let ?new = "Subscriber (closures b) i"
  let ?kept = "filter (\<lambda>item. Some item \<noteq> slot b i) (subscribers b)"
  from assms have d: "distinct (subscribers b)"
    and r: "\<And>s. s \<in> set (subscribers b) \<Longrightarrow> sid s < closures b \<and> slot b (ctx s) = Some s"
    and o: "\<And>j h. slot b j = Some h \<Longrightarrow> ctx h = j"
    by (simp_all add: wf_def)
  have fresh: "?new \<notin> set (subscribers b)"
    using r [of ?new] by auto
  have other: "ctx s \<noteq> i" if "s \<in> set ?kept" for s
    using that r [of s] by auto
  have 1: "distinct (?kept @ [?new])"
    using d fresh by simp
  have 2: "sid s < Suc (closures b) \<and> ((slot b)(i := Some ?new)) (ctx s) = Some s"
    if "s \<in> set (?kept @ [?new])" for s
  proof (cases "s = ?new")
    case True
    then show ?thesis by simp
  next
    case False
    with that have k: "s \<in> set ?kept" by simp
    then have "s \<in> set (subscribers b)" by simp
    with r [of s] other [OF k] show ?thesis by simp
  qed
  have 3: "ctx h = j" if "((slot b)(i := Some ?new)) j = Some h" for j h
    using that o [of j h] by (cases "j = i") auto
  show ?thesis
    unfolding wf_def connectedCallback_registry using 1 2 3 by blast
qed

lemma wf_disconnectedCallback:
  assumes "wf b"
  shows "wf (disconnectedCallback w b i)"
proof -
  from assms have d: "distinct (subscribers b)"
    and r: "\<forall>s \<in> set (subscribers b). sid s < closures b \<and> slot b (ctx s) = Some s"
    and o: "\<forall>j h. slot b j = Some h \<longrightarrow> ctx h = j"
    by (simp_all add: wf_def)
  have 1: "distinct (filter (\<lambda>item. Some item \<noteq> slot b i) (subscribers b))"
    using d by simp
  have 2: "\<forall>s \<in> set (filter (\<lambda>item. Some item \<noteq> slot b i) (subscribers b)).
             sid s < closures b \<and> slot b (ctx s) = Some s"
    using r by simp
  show ?thesis
    unfolding wf_def disconnectedCallback_registry using 1 2 o by blast
qed

lemma wf_step: "wf b \<Longrightarrow> wf (step w b e)"
  by (cases e) (simp_all add: wf_observer wf_getter wf_connectedCallback wf_disconnectedCallback)

lemma wf_foldl: "wf b \<Longrightarrow> wf (foldl (step w) b evs)"
  by (induction evs arbitrary: b) (simp_all add: wf_step)

lemma wf_run: "wf (run w init evs)"
  by (simp add: run_def wf_foldl wf_init)

text \<open>
  The binding a decoration leaves is the one reached from \<open>init\<close> by the pushes that the
  subscription delivered, so what holds after every history from \<open>init\<close> holds for every
  binding of the program.
\<close>

lemma foldl_observer_run: "foldl (observer w) b vs = run w b (map Push vs)"
  by (induction vs arbitrary: b) (simp_all add: run_def)

lemma decorated_reachable:
  "watchDecorator observable sel proto args = Inr (r, w, b) \<Longrightarrow>
     b = run w init (map Push (from_observable observable))"
  by (auto simp: watchDecorator_def foldl_observer_run Let_def
        split: decoration.splits if_splits sum.splits)

lemma one_per_key:
  "distinct xs \<Longrightarrow> (\<forall>s \<in> set xs. f (g s) = Some s) \<Longrightarrow> length (filter (\<lambda>s. g s = i) xs) \<le> 1"
proof (induction xs)
  case Nil
  then show ?case by simp
next
  case (Cons x xs)
  show ?case
  proof (cases "g x = i")
    case True
    have "filter (\<lambda>s. g s = i) xs = []"
    proof (rule ccontr)
      assume "filter (\<lambda>s. g s = i) xs \<noteq> []"
      then obtain s where s: "s \<in> set xs" "g s = i"
        by (auto simp: filter_empty_conv)
      with Cons.prems True have "Some s = Some x" by (metis list.set_intros)
      with s Cons.prems show False by simp
    qed
    with True show ?thesis by simp
  next
    case False
    with Cons show ?thesis by simp
  qed
qed

lemma wf_one_subscriber: "wf b \<Longrightarrow> length (filter (\<lambda>s. ctx s = i) (subscribers b)) \<le> 1"
  unfolding wf_def using one_per_key [of "subscribers b" "slot b" ctx i] by blast

lemma wf_distinct_ctx: "wf b \<Longrightarrow> distinct (map ctx (subscribers b))"
  unfolding wf_def
  by (metis distinct_map inj_onI option.inject)

section \<open>Histories without a push, and histories of hooks\<close>

lemma quiet_step:
  assumes "\<not> is_push e" and "thunk b = None"
  shows "thunk (step w b e) = None \<and> currentValue (step w b e) = currentValue b \<and>
         (\<exists>cs. calls (step w b e) = calls b @ cs \<and> filter selected cs = [])"
proof (cases e)
  case (Push v)
  with assms(1) show ?thesis by simp
next
  case (Connect i)
  then show ?thesis
    using assms(2)
    by (simp add: connectedCallback_values connectedCallback_calls split: option.splits)
next
  case (Disconnect i)
  then show ?thesis
    using assms(2)
    by (simp add: disconnectedCallback_values disconnectedCallback_calls split: option.splits)
next
  case (Read i)
  then show ?thesis using assms(2) by (simp add: getter_settled)
qed

lemma quiet_foldl:
  assumes "\<forall>e \<in> set evs. \<not> is_push e" and "thunk b = None"
  shows "thunk (foldl (step w) b evs) = None \<and>
         currentValue (foldl (step w) b evs) = currentValue b \<and>
         (\<exists>cs. calls (foldl (step w) b evs) = calls b @ cs \<and> filter selected cs = [])"
  using assms
proof (induction evs arbitrary: b)
  case Nil
  then show ?case by simp
next
  case (Cons e evs)
  from Cons.prems have e: "\<not> is_push e" and rest: "\<forall>e \<in> set evs. \<not> is_push e"
    by simp_all
  from quiet_step [OF e Cons.prems(2), of w]
  obtain c1 where s: "thunk (step w b e) = None" "currentValue (step w b e) = currentValue b"
    "calls (step w b e) = calls b @ c1" "filter selected c1 = []"
    by blast
  from Cons.IH [OF rest s(1)]
  obtain c2 where t: "thunk (foldl (step w) (step w b e) evs) = None"
    "currentValue (foldl (step w) (step w b e) evs) = currentValue (step w b e)"
    "calls (foldl (step w) (step w b e) evs) = calls (step w b e) @ c2" "filter selected c2 = []"
    by blast
  have "calls (foldl (step w) b (e # evs)) = calls b @ (c1 @ c2)"
    using s t by simp
  moreover have "filter selected (c1 @ c2) = []"
    using s t by simp
  ultimately have "\<exists>cs. calls (foldl (step w) b (e # evs)) = calls b @ cs \<and> filter selected cs = []"
    by blast
  moreover have "thunk (foldl (step w) b (e # evs)) = None"
    using t by simp
  moreover have "currentValue (foldl (step w) b (e # evs)) = currentValue b"
    using s t by simp
  ultimately show ?case by blast
qed

lemma hook_step:
  assumes "is_hook e"
  shows "thunk (step w b e) = thunk b \<and> currentValue (step w b e) = currentValue b \<and>
         (\<exists>cs. calls (step w b e) = calls b @ cs \<and> filter selected cs = [])"
proof (cases e)
  case (Push v)
  with assms show ?thesis by simp
next
  case (Connect i)
  then show ?thesis
    by (simp add: connectedCallback_values connectedCallback_calls split: option.splits)
next
  case (Disconnect i)
  then show ?thesis
    by (simp add: disconnectedCallback_values disconnectedCallback_calls split: option.splits)
next
  case (Read i)
  with assms show ?thesis by simp
qed

lemma hook_foldl:
  assumes "\<forall>e \<in> set hs. is_hook e"
  shows "thunk (foldl (step w) b hs) = thunk b \<and>
         currentValue (foldl (step w) b hs) = currentValue b \<and>
         (\<exists>cs. calls (foldl (step w) b hs) = calls b @ cs \<and> filter selected cs = [])"
  using assms
proof (induction hs arbitrary: b)
  case Nil
  then show ?case by simp
next
  case (Cons e hs)
  from Cons.prems have e: "is_hook e" and rest: "\<forall>e \<in> set hs. is_hook e"
    by simp_all
  from hook_step [OF e, of w b]
  obtain c1 where s: "thunk (step w b e) = thunk b" "currentValue (step w b e) = currentValue b"
    "calls (step w b e) = calls b @ c1" "filter selected c1 = []"
    by blast
  from Cons.IH [OF rest, of "step w b e"]
  obtain c2 where t: "thunk (foldl (step w) (step w b e) hs) = thunk (step w b e)"
    "currentValue (foldl (step w) (step w b e) hs) = currentValue (step w b e)"
    "calls (foldl (step w) (step w b e) hs) = calls (step w b e) @ c2" "filter selected c2 = []"
    by blast
  have "calls (foldl (step w) b (e # hs)) = calls b @ (c1 @ c2)"
    using s t by simp
  moreover have "filter selected (c1 @ c2) = []"
    using s t by simp
  ultimately have "\<exists>cs. calls (foldl (step w) b (e # hs)) = calls b @ cs \<and> filter selected cs = []"
    by blast
  moreover have "thunk (foldl (step w) b (e # hs)) = thunk b"
    using s t by simp
  moreover have "currentValue (foldl (step w) b (e # hs)) = currentValue b"
    using s t by simp
  ultimately show ?case by blast
qed

lemma observer_idle_foldl:
  "subscribers b = [] \<Longrightarrow> vs \<noteq> [] \<Longrightarrow> foldl (observer w) b vs = b\<lparr>thunk := Some (last vs)\<rparr>"
proof (induction vs arbitrary: b)
  case Nil
  then show ?case by simp
next
  case (Cons u us)
  show ?case
  proof (cases "us = []")
    case True
    with Cons.prems show ?thesis by (simp add: observer_idle)
  next
    case False
    have "foldl (observer w) (b\<lparr>thunk := Some u\<rparr>) us
            = b\<lparr>thunk := Some u\<rparr>\<lparr>thunk := Some (last us)\<rparr>"
      using Cons.IH [of "b\<lparr>thunk := Some u\<rparr>"] Cons.prems(1) False by simp
    with Cons.prems False show ?thesis by (simp add: observer_idle)
  qed
qed

section \<open>An instance that no event touches keeps its registration\<close>

lemma untouched_step:
  assumes "wf b" and "\<not> touches i e" and "slot b i = Some s" and "s \<in> set (subscribers b)"
  shows "slot (step w b e) i = Some s \<and> s \<in> set (subscribers (step w b e))"
proof -
  have own: "slot b j \<noteq> Some s" if "j \<noteq> i" for j
  proof
    assume j: "slot b j = Some s"
    from assms(1) have o: "\<And>k h. slot b k = Some h \<Longrightarrow> ctx h = k"
      by (simp add: wf_def)
    from o [OF j] o [OF assms(3)] that show False by simp
  qed
  show ?thesis
  proof (cases e)
    case (Push v)
    with assms show ?thesis by (simp add: observer_registry)
  next
    case (Connect j)
    with assms(2) have "j \<noteq> i" by simp
    with Connect assms(3,4) own [of j] show ?thesis
      by (auto simp: connectedCallback_registry)
  next
    case (Disconnect j)
    with assms(2) have "j \<noteq> i" by simp
    with Disconnect assms(3,4) own [of j] show ?thesis
      by (auto simp: disconnectedCallback_registry)
  next
    case (Read j)
    with assms show ?thesis by (simp add: getter_registry)
  qed
qed

lemma untouched_foldl:
  assumes "wf b" and "\<forall>e \<in> set mid. \<not> touches i e"
    and "slot b i = Some s" and "s \<in> set (subscribers b)"
  shows "slot (foldl (step w) b mid) i = Some s \<and> s \<in> set (subscribers (foldl (step w) b mid))"
  using assms
proof (induction mid arbitrary: b)
  case Nil
  then show ?case by simp
next
  case (Cons e mid)
  from Cons.prems have e: "\<not> touches i e" and rest: "\<forall>e \<in> set mid. \<not> touches i e"
    by simp_all
  from untouched_step [OF Cons.prems(1) e Cons.prems(3,4), of w]
  have s: "slot (step w b e) i = Some s" "s \<in> set (subscribers (step w b e))"
    by simp_all
  from Cons.IH [OF wf_step [OF Cons.prems(1)] rest s]
  show ?case by simp
qed

section \<open>After a disconnect\<close>

lemma silent_step:
  assumes "\<not> connects i e" and "\<forall>s \<in> set (subscribers b). ctx s \<noteq> i"
  shows "(\<forall>s \<in> set (subscribers (step w b e)). ctx s \<noteq> i) \<and>
         (\<exists>cs. calls (step w b e) = calls b @ cs \<and> filter (requested i) cs = [])"
proof (cases e)
  case (Push v)
  have none: "filter (\<lambda>s. ctx s = i) (subscribers b) = []"
    using assms(2) by (auto simp: filter_empty_conv)
  show ?thesis
  proof (cases "subscribers b = []")
    case True
    with Push show ?thesis by (simp add: observer_idle)
  next
    case False
    with Push assms(2) none show ?thesis
      by (simp add: observer_subscribed requested_notified)
  qed
next
  case (Connect j)
  with assms show ?thesis
    by (simp add: connectedCallback_registry connectedCallback_calls split: option.splits)
next
  case (Disconnect j)
  with assms show ?thesis
    by (simp add: disconnectedCallback_registry disconnectedCallback_calls split: option.splits)
next
  case (Read j)
  with assms show ?thesis
    by (simp add: getter_registry getter_calls split: option.splits)
qed

lemma silent_foldl:
  assumes "\<forall>e \<in> set evs. \<not> connects i e" and "\<forall>s \<in> set (subscribers b). ctx s \<noteq> i"
  shows "\<exists>cs. calls (foldl (step w) b evs) = calls b @ cs \<and> filter (requested i) cs = []"
  using assms
proof (induction evs arbitrary: b)
  case Nil
  then show ?case by simp
next
  case (Cons e evs)
  from Cons.prems have e: "\<not> connects i e" and rest: "\<forall>e \<in> set evs. \<not> connects i e"
    by simp_all
  from silent_step [OF e Cons.prems(2), of w]
  obtain c1 where s: "\<forall>s \<in> set (subscribers (step w b e)). ctx s \<noteq> i"
    "calls (step w b e) = calls b @ c1" "filter (requested i) c1 = []"
    by blast
  from Cons.IH [OF rest s(1)]
  obtain c2 where t: "calls (foldl (step w) (step w b e) evs) = calls (step w b e) @ c2"
    "filter (requested i) c2 = []"
    by blast
  have "calls (foldl (step w) b (e # evs)) = calls b @ (c1 @ c2)"
    using s t by simp
  moreover have "filter (requested i) (c1 @ c2) = []"
    using s t by simp
  ultimately show ?case by blast
qed

text \<open>
  Once the wrapped disconnect hook has run on an instance, nothing asks that instance to
  update until it connects again, whatever is pushed and whatever other instances do.
\<close>

lemma disconnect_silences:
  assumes "b = disconnectedCallback w (run w init evs) i"
    and "\<forall>e \<in> set later. \<not> connects i e"
  shows "filter (requested i) (emitted b (run w b later)) = []"
proof -
  have "wf (run w init evs)" by (rule wf_run)
  then have r: "\<And>s. s \<in> set (subscribers (run w init evs))
                  \<Longrightarrow> slot (run w init evs) (ctx s) = Some s"
    by (simp add: wf_def)
  have gone: "\<forall>s \<in> set (subscribers b). ctx s \<noteq> i"
  proof
    fix s
    assume "s \<in> set (subscribers b)"
    then have "s \<in> set (subscribers (run w init evs))"
      and "Some s \<noteq> slot (run w init evs) i"
      using assms(1) by (simp_all add: disconnectedCallback_registry)
    with r [of s] show "ctx s \<noteq> i" by auto
  qed
  from silent_foldl [OF assms(2) gone, of w]
  obtain cs where "calls (run w b later) = calls b @ cs" "filter (requested i) cs = []"
    by (auto simp: run_def)
  then show ?thesis by (simp add: emitted_def)
qed

section \<open>Reading the property\<close>

text \<open>
  A thunk recorded while nobody is subscribed stays pending when an instance connects,
  and the observer's branch for a non-empty registry neither runs nor discards it. The
  next read then runs it and puts the selection of the older snapshot over that of the
  newer one.
\<close>

lemma stale_thunk:
  "fst (getter w (run w init [Push v1, Connect i, Push v2])) = maybeSelector (selector w) v1"
  by (simp add: run_def observer_def connectedCallback_def getter_def runThunk_def init_def subscribe_def
        unsubscribe_def Let_def)

text \<open>
  Where no thunk is pending beside a non-empty registry, a read after a push does return
  the selection of the snapshot pushed.
\<close>

lemma read_after_push:
  assumes "thunk b = None \<or> subscribers b = []"
  shows "fst (getter w (observer w b v)) = maybeSelector (selector w) v"
proof (cases "subscribers b = []")
  case True
  then show ?thesis by (simp add: observer_idle getter_def runThunk_def)
next
  case False
  with assms have "thunk b = None" by simp
  with False show ?thesis
    by (simp add: observer_subscribed getter_def runThunk_def)
qed

text \<open>
  The connect hook of \<^verbatim>\<open>src/index.ts\<close> runs the thunk before it subscribes, so there a
  thunk is pending only while the registry is empty.
\<close>

lemma index_step_thunk:
  assumes "thunk b = None \<or> subscribers b = []"
  shows "thunk (index_step w b e) = None \<or> subscribers (index_step w b e) = []"
proof (cases e)
  case (Push v)
  with assms show ?thesis
    by (cases "subscribers b = []") (auto simp: observer_idle observer_subscribed)
next
  case (Connect i)
  then show ?thesis
    by (simp add: index_connectedCallback_def runThunk_def subscribe_def unsubscribe_def Let_def
          split: option.splits)
next
  case (Disconnect i)
  with assms show ?thesis
    by (auto simp: disconnectedCallback_values disconnectedCallback_registry)
next
  case (Read i)
  with assms show ?thesis by (simp add: index_getter_def)
qed

lemma index_run_thunk:
  "thunk b = None \<or> subscribers b = [] \<Longrightarrow>
     thunk (index_run w b evs) = None \<or> subscribers (index_run w b evs) = []"
  unfolding index_run_def
  by (induction evs arbitrary: b) (simp_all add: index_step_thunk)

text \<open>
  C1. The claim: after any history of pushes, connects, disconnects and reads, a read
  returns the selection of the snapshot pushed last. The code does not keep it. With no
  selector, push 1 before any instance is connected, connect instance 0, push 2: the read
  returns 1. The same on a store whose state is 1 when the property is decorated and 2
  after the first dispatch that follows the connect. In \<^verbatim>\<open>src/index.ts\<close>, where the
  thunk is run by the connect hook and not by the accessor, a push received after the
  only instance has disconnected is not seen by a read.
\<close>

theorem stale_read_after_connect:
  "fst (getter complete (run complete init [Push (Val 1), Connect 0, Push (Val 2)]))
     = Val (1::nat) \<and>
   (case watchDecorator (Store (Val 1)) None mount (Legacy ''entireStore'') of
      Inl e \<Rightarrow> Undefined
    | Inr (r, w, b) \<Rightarrow> fst (getter w (run w b [Connect 0, Push (Val 2)]))) = Val (1::nat) \<and>
   fst (index_getter (index_run complete init [Connect 0, Disconnect 0, Push (Val 1)]))
     = (Undefined :: nat js)"
  by (simp add: evaluate)

section \<open>Notification\<close>

text \<open>
  C2. A push received in a reachable state with a non-empty registry: if the selection
  equals the stored current value, the only call made is the selection itself, so no
  subscriber is invoked, and the state is otherwise unchanged; if it differs, the new
  value is stored and every registered subscriber is invoked once, in registration
  order, with the value stored before. The registered subscribers belong to distinct
  instances.
\<close>

theorem observer_notifies_on_change:
  assumes "b = run w init evs" and "subscribers b \<noteq> []"
  shows "(maybeSelector (selector w) v = currentValue b \<longrightarrow>
            observer w b v = b\<lparr>calls := calls b @ [Select v]\<rparr>) \<and>
         (maybeSelector (selector w) v \<noteq> currentValue b \<longrightarrow>
            observer w b v =
              b\<lparr>currentValue := maybeSelector (selector w) v,
                calls := calls b @ Select v #
                  map (\<lambda>s. RequestUpdate (ctx s) (propertyKey w) (currentValue b))
                    (subscribers b)\<rparr>) \<and>
         distinct (map ctx (subscribers b))"
proof -
  have "wf b" using assms(1) by (simp add: wf_run)
  then show ?thesis
    using assms(2) by (simp add: observer_subscribed wf_distinct_ctx)
qed

theorem observer_notifies_on_change_witness:
  "subscribers (run complete init [Connect 0, Connect 1]) \<noteq> [] \<and>
   emitted (run complete init [Connect 0, Connect 1])
       (observer complete (run complete init [Connect 0, Connect 1]) (Val (5::nat)))
     = [Select (Val 5), RequestUpdate 0 ''complete'' Undefined,
        RequestUpdate 1 ''complete'' Undefined] \<and>
   emitted (run complete init [Connect 0, Connect 1])
       (observer complete (run complete init [Connect 0, Connect 1]) (Undefined :: nat js))
     = [Select Undefined]"
proof -
  have h: "subscribers (run complete init [Connect 0, Connect 1] :: nat binding) \<noteq> []"
    by (simp add: evaluate)
  show ?thesis
    using h observer_notifies_on_change [OF refl h, of "Val 5"]
      observer_notifies_on_change [OF refl h, of Undefined]
    by (simp add: evaluate)
qed

section \<open>What the decorator refuses\<close>






section \<open>Connecting twice\<close>

text \<open>
  C4. In a reachable state, connect an instance, let anything happen that is neither a
  connect nor a disconnect of that instance, and connect it again. The slot then still
  holds the handle of the first registration, which is still registered; the second run
  of the hook calls the host's own hook, then that handle, then registers the new
  subscriber; afterwards the first subscriber is gone and the new one is the only
  subscriber of the instance. In every reachable state an instance has at most one
  subscriber in the registry, and one push asks it to update at most once.
\<close>

theorem connect_replaces_subscription:
  assumes "b = run w init evs"
    and "b1 = connectedCallback w b i"
    and "\<forall>e \<in> set mid. \<not> touches i e"
    and "bm = run w b1 mid"
    and "b2 = connectedCallback w bm i"
    and "first = Subscriber (closures b) i"
    and "second = Subscriber (closures bm) i"
  shows "slot bm i = Some first \<and> first \<in> set (subscribers bm) \<and>
         emitted bm b2
           = (if connect w then [SuperConnect i] else []) @ [Unsubscribe first, Subscribe second] \<and>
         first \<notin> set (subscribers b2) \<and>
         filter (\<lambda>s. ctx s = i) (subscribers b2) = [second] \<and>
         slot b2 i = Some second \<and>
         length (filter (\<lambda>s. ctx s = i) (subscribers b)) \<le> 1 \<and>
         length (filter (requested i) (emitted b (observer w b v))) \<le> 1"
proof -
  have wf0: "wf b" using assms(1) by (simp add: wf_run)
  have wf1: "wf b1" using wf0 assms(2) by (simp add: wf_connectedCallback)
  have wfm: "wf bm" using wf1 assms(4) by (simp add: run_def wf_foldl)
  have s1: "slot b1 i = Some first"
    using assms(2,6) by (simp add: connectedCallback_registry)
  have m1: "first \<in> set (subscribers b1)"
    using assms(2,6) by (simp add: connectedCallback_registry)
  from untouched_foldl [OF wf1 assms(3) s1 m1, of w]
  have sm: "slot bm i = Some first" and mm: "first \<in> set (subscribers bm)"
    using assms(4) by (simp_all add: run_def)
  have e: "emitted bm b2
      = (if connect w then [SuperConnect i] else []) @ [Unsubscribe first, Subscribe second]"
    using assms(5,7) sm by (simp add: emitted_def connectedCallback_calls)
  have sub2: "subscribers b2 = filter (\<lambda>item. item \<noteq> first) (subscribers bm) @ [second]"
    using assms(5,7) sm by (simp add: connectedCallback_registry)
  from wfm have r: "\<And>s. s \<in> set (subscribers bm) \<Longrightarrow> sid s < closures bm \<and> slot bm (ctx s) = Some s"
    by (simp add: wf_def)
  have ne: "first \<noteq> second"
    using r [OF mm] assms(7) by auto
  have out: "first \<notin> set (subscribers b2)"
    using sub2 ne by simp
  have "\<forall>s \<in> set (subscribers bm). ctx s = i \<longrightarrow> s = first"
    using r sm by auto
  then have "filter (\<lambda>s. ctx s = i) (filter (\<lambda>item. item \<noteq> first) (subscribers bm)) = []"
    by (auto simp: filter_empty_conv)
  then have only: "filter (\<lambda>s. ctx s = i) (subscribers b2) = [second]"
    using sub2 assms(7) by simp
  have s2: "slot b2 i = Some second"
    using assms(5,7) by (simp add: connectedCallback_registry)
  have one: "length (filter (\<lambda>s. ctx s = i) (subscribers b)) \<le> 1"
    using wf0 by (rule wf_one_subscriber)
  have req: "length (filter (requested i) (emitted b (observer w b v))) \<le> 1"
    using observer_requests [of i b w v] one by linarith
  show ?thesis using sm mm e out only s2 one req by blast
qed

theorem connect_replaces_subscription_witness:
  "subscribers (run complete init [Connect 1, Connect 0, Push (Val (3::nat)), Connect 1, Connect 0])
     = [Subscriber 2 1, Subscriber 3 0] \<and>
   emitted (run complete init [Connect 1, Connect 0, Push (Val (3::nat)), Connect 1])
       (run complete init [Connect 1, Connect 0, Push (Val (3::nat)), Connect 1, Connect 0])
     = [SuperConnect 0, Unsubscribe (Subscriber 1 0), Subscribe (Subscriber 3 0)] \<and>
   emitted (run complete init [Connect 1])
       (observer complete (run complete init [Connect 1]) (Val (3::nat)))
     = [Select (Val 3), RequestUpdate 1 ''complete'' Undefined]"
proof -
  have h: "\<forall>e \<in> set [Push (Val (3::nat)), Connect 1]. \<not> touches 0 e"
    by simp
  show ?thesis
    using connect_replaces_subscription [OF refl refl h refl refl refl refl,
        of complete "[Connect 1]" "Val 3"]
    by (simp add: evaluate)
qed

section \<open>Disconnecting\<close>

text \<open>
  C5. The claim: after the wrapped disconnect hook has run on an instance, no later push
  asks that instance to update, and a read on it still returns the selection of the
  latest snapshot. The first half holds (\<open>disconnect_silences\<close>). The second does not:
  push 1, connect instances 0 and 1, disconnect instance 0, push 2. The push asks
  instance 1 alone to update, and a read returns 1, the selection of the snapshot
  recorded before the first connect.
\<close>

theorem stale_read_after_disconnect:
  "emitted (run complete init [Push (Val (1::nat)), Connect 0, Connect 1, Disconnect 0])
     (run complete init [Push (Val 1), Connect 0, Connect 1, Disconnect 0, Push (Val 2)])
     = [Select (Val 2), RequestUpdate 1 ''complete'' Undefined] \<and>
   fst (getter complete
     (run complete init [Push (Val (1::nat)), Connect 0, Connect 1, Disconnect 0, Push (Val 2)]))
     = Val 1"
  by (simp add: evaluate)

section \<open>The value a store seeds\<close>

lemma seeded_step:
  assumes "\<not> is_push e" and "selector w = None"
    and "thunk b = Some state \<or> (thunk b = None \<and> currentValue b = state)"
  shows "thunk (step w b e) = Some state \<or>
         (thunk (step w b e) = None \<and> currentValue (step w b e) = state)"
proof (cases e)
  case (Push v)
  with assms(1) show ?thesis by simp
next
  case (Connect i)
  then show ?thesis using assms(3) by (simp add: connectedCallback_values)
next
  case (Disconnect i)
  then show ?thesis using assms(3) by (simp add: disconnectedCallback_values)
next
  case (Read i)
  then show ?thesis
    using assms(2,3) by (auto simp: getter_def runThunk_def maybeSelector_def)
qed

lemma seeded_foldl:
  assumes "\<forall>e \<in> set evs. \<not> is_push e" and "selector w = None"
    and "thunk b = Some state \<or> (thunk b = None \<and> currentValue b = state)"
  shows "fst (getter w (foldl (step w) b evs)) = state"
  using assms
proof (induction evs arbitrary: b)
  case Nil
  then show ?case by (auto simp: getter_def runThunk_def maybeSelector_def)
next
  case (Cons e evs)
  then show ?case using seeded_step [of e w b state] by simp
qed

text \<open>
  C6. A property decorated with no selector over a store-like source: the subscription
  delivers the store's current snapshot while nobody is subscribed, so the binding starts
  with that snapshot deferred, and a read returns it, at once and after any connects,
  disconnects and reads, as long as nothing is pushed.
\<close>

theorem store_seeds_property:
  assumes "watchDecorator (Store state) None proto args = Inr (r, w, b)"
    and "\<forall>e \<in> set evs. \<not> is_push e"
  shows "b = init\<lparr>thunk := Some state\<rparr> \<and> fst (getter w (run w b evs)) = state"
proof -
  have b: "b = init\<lparr>thunk := Some state\<rparr>" and w: "selector w = None"
    using assms(1)
    by (auto simp: watchDecorator_def from_observable_def observer_def init_def
          patchPrototypeWithWatcher_def captured_def Let_def
          split: decoration.splits if_splits sum.splits)
  have "thunk b = Some state" using b by simp
  then show ?thesis
    using b seeded_foldl [OF assms(2) w, of b state] by (simp add: run_def)
qed

theorem store_seeds_property_witness:
  "watchDecorator (Store (Val [(''slice'', [] :: string list)])) None mount (Legacy ''entireStore'')
     = Inr (Void, captured None mount ''entireStore'',
            init\<lparr>thunk := Some (Val [(''slice'', [])])\<rparr>) \<and>
   fst (getter (captured None mount ''entireStore'')
         (run (captured None mount ''entireStore'')
            (init\<lparr>thunk := Some (Val [(''slice'', [] :: string list)])\<rparr>) [Connect 0]))
     = Val [(''slice'', [])]"
proof -
  have d: "watchDecorator (Store (Val [(''slice'', [] :: string list)])) None mount
             (Legacy ''entireStore'')
           = Inr (Void, captured None mount ''entireStore'',
                  init\<lparr>thunk := Some (Val [(''slice'', [])])\<rparr>)"
    by (simp add: watchDecorator_def patchPrototypeWithWatcher_def configureSetter_def
          mount_def from_observable_def observer_def init_def Let_def)
  have h: "\<forall>e \<in> set [Connect 0 :: (string \<times> string list) list event]. \<not> is_push e"
    by simp
  show ?thesis
    using d store_seeds_property [OF d h] by simp
qed

section \<open>Deferral\<close>

text \<open>
  C7. A push received while the registry is empty records the snapshot as the thunk, in
  place of whatever thunk there was, and does nothing else: no selection is made and the
  current value is not touched. After a run of such pushes the thunk holds the last of
  them. When the thunk is forced by a read, at once or after instances have connected
  and disconnected, the read returns the selection of that last snapshot, and that is
  the only selection made since before the pushes.
\<close>

theorem push_without_subscribers_defers:
  assumes "subscribers b = []" and "vs \<noteq> []" and "\<forall>e \<in> set hs. is_hook e"
    and "b' = run w (foldl (observer w) b vs) hs"
  shows "observer w b v = b\<lparr>thunk := Some v\<rparr> \<and>
         foldl (observer w) b vs = b\<lparr>thunk := Some (last vs)\<rparr> \<and>
         fst (getter w b') = maybeSelector (selector w) (last vs) \<and>
         filter selected (emitted b (snd (getter w b'))) = [Select (last vs)]"
proof -
  let ?d = "foldl (observer w) b vs"
  have many: "?d = b\<lparr>thunk := Some (last vs)\<rparr>"
    using assms(1,2) by (rule observer_idle_foldl)
  from hook_foldl [OF assms(3), of w ?d]
  obtain cs where h: "thunk b' = thunk ?d" "currentValue b' = currentValue ?d"
    "calls b' = calls ?d @ cs" "filter selected cs = []"
    using assms(4) by (auto simp: run_def)
  have t: "thunk b' = Some (last vs)" using h(1) many by simp
  have c: "calls b' = calls b @ cs" using h(3) many by simp
  have v: "fst (getter w b') = maybeSelector (selector w) (last vs)"
    using t by (simp add: getter_def runThunk_def)
  have "calls (snd (getter w b')) = calls b @ cs @ [Select (last vs)]"
    using t c by (simp add: getter_calls)
  then have "filter selected (emitted b (snd (getter w b'))) = [Select (last vs)]"
    using h(4) by (simp add: emitted_def)
  then show ?thesis
    using assms(1) many v by (simp add: observer_idle)
qed

theorem push_without_subscribers_defers_witness:
  "foldl (observer complete) init [Val 1, Val 2, Val (3::nat)] = init\<lparr>thunk := Some (Val 3)\<rparr> \<and>
   fst (getter complete
     (run complete (foldl (observer complete) init [Val 1, Val 2, Val (3::nat)])
        [Connect 0, Disconnect 0])) = Val 3 \<and>
   filter selected (calls (snd (getter complete
     (run complete (foldl (observer complete) init [Val 1, Val 2, Val (3::nat)])
        [Connect 0, Disconnect 0])))) = [Select (Val 3)]"
proof -
  have s: "subscribers (init :: nat binding) = []" by (simp add: init_def)
  have n: "[Val 1, Val 2, Val (3::nat)] \<noteq> []" by simp
  have h: "\<forall>e \<in> set [Connect 0, Disconnect 0 :: nat event]. is_hook e" by simp
  show ?thesis
    using push_without_subscribers_defers [OF s n h refl, of complete "Val 9"]
    by (simp add: evaluate)
qed

section \<open>Reading twice\<close>

text \<open>
  C8. Read the property, let anything happen but a push, and read it again: the second
  read returns what the first returned and finds no thunk, so it changes nothing. Of the
  whole stretch, the only selection made is the one of the thunk that the first read
  found, if it found one.
\<close>

theorem read_twice_same_value:
  assumes "\<forall>e \<in> set evs. \<not> is_push e"
    and "b1 = snd (getter w b)"
    and "b' = run w b1 evs"
  shows "fst (getter w b') = fst (getter w b) \<and>
         thunk b1 = None \<and> thunk b' = None \<and>
         snd (getter w b') = b' \<and>
         filter selected (emitted b (snd (getter w b')))
           = (case thunk b of None \<Rightarrow> [] | Some v \<Rightarrow> [Select v])"
proof -
  have t1: "thunk b1 = None" using assms(2) by (simp add: getter_forced)
  from quiet_foldl [OF assms(1) t1, of w]
  obtain cs where q: "thunk b' = None" "currentValue b' = currentValue b1"
    "calls b' = calls b1 @ cs" "filter selected cs = []"
    using assms(3) by (auto simp: run_def)
  have g: "getter w b' = (currentValue b', b')" using q(1) by (rule getter_settled)
  have v: "fst (getter w b') = fst (getter w b)"
    using g q(2) assms(2) by (simp add: getter_value)
  have c: "calls b' = calls b @ (case thunk b of None \<Rightarrow> [] | Some v \<Rightarrow> [Select v]) @ cs"
    using q(3) assms(2) by (simp add: getter_calls)
  have "filter selected (emitted b b')
           = (case thunk b of None \<Rightarrow> [] | Some v \<Rightarrow> [Select v])"
    using c q(4) by (simp add: emitted_def split: option.splits)
  then show ?thesis using t1 q(1) g v by simp
qed

theorem read_twice_same_value_witness:
  "fst (getter complete (init\<lparr>thunk := Some (Val (4::nat))\<rparr>)) = Val 4 \<and>
   fst (getter complete
     (run complete (snd (getter complete (init\<lparr>thunk := Some (Val (4::nat))\<rparr>)))
        [Connect 0, Read 0, Disconnect 0])) = Val 4 \<and>
   filter selected (calls (snd (getter complete
     (run complete (snd (getter complete (init\<lparr>thunk := Some (Val (4::nat))\<rparr>)))
        [Connect 0, Read 0, Disconnect 0])))) = [Select (Val 4)]"
proof -
  have h: "\<forall>e \<in> set [Connect 0, Read 0, Disconnect 0 :: nat event]. \<not> is_push e" by simp
  show ?thesis
    using read_twice_same_value [OF h refl refl, of complete "init\<lparr>thunk := Some (Val 4)\<rparr>"]
    by (simp add: evaluate)
qed

section \<open>The slot after a disconnect\<close>

text \<open>
  C9, as the claim states it, fails: after a connect and a disconnect of an instance its
  slot still holds the handle.
\<close>

theorem slot_kept_after_disconnect:
  "slot (disconnectedCallback complete (connectedCallback complete (init :: nat binding) 0) 0) 0
     = Some (Subscriber 0 0)"
  by (simp add: evaluate)

text \<open>
  C9, amended. When the slot of the instance holds a handle, the wrapped disconnect hook
  invokes it, which removes that one subscriber from the registry, and then calls the
  disconnect hook the prototype had before, if it had one. Nothing else changes: the
  slot holds the same handle afterwards.
\<close>

theorem disconnect_keeps_slot:
  assumes "slot b i = Some h"
  shows "disconnectedCallback w b i
           = b\<lparr>subscribers := filter (\<lambda>item. item \<noteq> h) (subscribers b),
               calls := calls b @ Unsubscribe h #
                 (if disconnect w then [SuperDisconnect i] else [])\<rparr> \<and>
         slot (disconnectedCallback w b i) i = Some h"
  using assms by (simp add: disconnectedCallback_def unsubscribe_def)

theorem disconnect_keeps_slot_witness:
  "slot (run complete (init :: nat binding) [Connect 0, Connect 1]) 1 = Some (Subscriber 1 1) \<and>
   subscribers (disconnectedCallback complete
       (run complete (init :: nat binding) [Connect 0, Connect 1]) 1) = [Subscriber 0 0] \<and>
   emitted (run complete (init :: nat binding) [Connect 0, Connect 1])
       (disconnectedCallback complete (run complete init [Connect 0, Connect 1]) 1)
     = [Unsubscribe (Subscriber 1 1), SuperDisconnect 1] \<and>
   slot (disconnectedCallback complete
       (run complete (init :: nat binding) [Connect 0, Connect 1]) 1) 1 = Some (Subscriber 1 1)"
proof -
  have h: "slot (run complete (init :: nat binding) [Connect 0, Connect 1]) 1
             = Some (Subscriber 1 1)"
    by (simp add: evaluate)
  show ?thesis
    using h disconnect_keeps_slot [OF h, of complete]
    by (simp add: evaluate)
qed

section \<open>The unsubscribe handle\<close>

lemma unsubscribe_funpow:
  "subscribers ((unsubscribe s ^^ Suc n) b) = filter (\<lambda>item. item \<noteq> s) (subscribers b)"
  by (induction n arbitrary: b) (simp_all add: unsubscribe_def)

text \<open>
  C10. The handle that \<open>subscribe\<close> returns for a subscriber \<open>s\<close> is idempotent and
  isolated: invoked once or more, on whatever the registry has become, it leaves the
  registry without \<open>s\<close>, and every other subscriber stays where it was, as often as it
  was there and in the same order. Invoked right after the subscription of a subscriber
  not yet registered, it gives back the registry of before.
\<close>

theorem unsubscribe_idempotent_isolated:
  "0 < n \<Longrightarrow>
     subscribers ((unsubscribe s ^^ n) b) = filter (\<lambda>item. item \<noteq> s) (subscribers b) \<and>
     s \<notin> set (subscribers ((unsubscribe s ^^ n) b)) \<and>
     filter (\<lambda>item. item \<noteq> s) (subscribers ((unsubscribe s ^^ n) b))
       = filter (\<lambda>item. item \<noteq> s) (subscribers b) \<and>
     (s \<notin> set (subscribers b) \<longrightarrow>
        subscribers ((unsubscribe s ^^ n) (subscribe s b)) = subscribers b)"
proof -
  assume "0 < n"
  then obtain m where n: "n = Suc m" by (cases n) auto
  have a: "subscribers ((unsubscribe s ^^ n) b) = filter (\<lambda>item. item \<noteq> s) (subscribers b)"
    unfolding n by (rule unsubscribe_funpow)
  have b: "subscribers ((unsubscribe s ^^ n) (subscribe s b))
             = filter (\<lambda>item. item \<noteq> s) (subscribers b)"
    unfolding n by (simp only: unsubscribe_funpow) (simp add: subscribe_def)
  have c: "s \<notin> set (subscribers b) \<Longrightarrow> filter (\<lambda>item. item \<noteq> s) (subscribers b) = subscribers b"
    by (auto simp: filter_id_conv)
  show ?thesis using a b c by auto
qed

theorem unsubscribe_idempotent_isolated_witness:
  "subscribers ((unsubscribe (Subscriber 1 7) ^^ 3)
       ((init :: nat binding)\<lparr>subscribers := [Subscriber 0 5, Subscriber 1 7, Subscriber 2 9]\<rparr>))
     = [Subscriber 0 5, Subscriber 2 9]"
  using unsubscribe_idempotent_isolated
    [of 3 "Subscriber 1 7"
        "(init :: nat binding)\<lparr>subscribers := [Subscriber 0 5, Subscriber 1 7, Subscriber 2 9]\<rparr>"]
  by (simp add: init_def)

end
